theory Spec2Isabelle
  imports Main "HOL-Library.Word" "HOL-Library.Stream"
begin

section \<open>Execution results (runner.py)\<close>

text \<open>
  \<^verbatim>\<open>ExecutionResult\<close> wraps a completed process: the return code (a Python int) and the
  two captured byte streams.
\<close>

type_synonym byte = "8 word"

record ExecutionResult =
  returncode :: int
  stdout :: "byte list"
  stderr :: "byte list"

definition ok :: "ExecutionResult \<Rightarrow> bool" where
  "ok r = (returncode r = 0)"

definition timed_out :: "ExecutionResult \<Rightarrow> bool" where
  "timed_out r = (returncode r = 124)"

definition success :: "ExecutionResult \<Rightarrow> bool" where
  "success r = (ok r \<or> timed_out r)"

text \<open>\<^verbatim>\<open>__bool__\<close>: the truth value of a result.\<close>

definition bool_result :: "ExecutionResult \<Rightarrow> bool" where
  "bool_result r = ok r"

section \<open>Python values used by the codec (generate.py)\<close>

text \<open>
  A Python \<^verbatim>\<open>str\<close> holding a program is the list of its code points; \<^verbatim>\<open>ord\<close> of a
  character is the code point itself. Identifier strings (hexadecimal text) are kept as
  \<^typ>\<open>string\<close>, over 8-bit characters. Python integers are \<^typ>\<open>int\<close>.
\<close>

type_synonym pystr = "int list"

definition is_str :: "pystr \<Rightarrow> bool" where
  "is_str s = list_all (\<lambda>c. 0 \<le> c \<and> c \<le> 0x10FFFF) s"

text \<open>Every exception the codec can raise.\<close>

datatype error =
    InvalidLiteral
  | ChrOutOfRange
  | ZeroDivisionError
  | NotReadable int nat

text \<open>
  \<^item> \<open>InvalidLiteral\<close>: the \<^verbatim>\<open>ValueError\<close> of \<^verbatim>\<open>int(s, 16)\<close> on text that is no number;
  \<^item> \<open>ChrOutOfRange\<close>: the exception of \<^verbatim>\<open>chr(i)\<close> when \<open>i\<close> is no code point;
  \<^item> \<open>ZeroDivisionError\<close>: \<^verbatim>\<open>//\<close> or \<^verbatim>\<open>%\<close> by zero;
  \<^item> \<open>NotReadable char position\<close>: the \<^verbatim>\<open>ValueError\<close> raised by \<^verbatim>\<open>program_to_hex_slow\<close>,
    whose message holds the character and its position.
\<close>

definition chr_py :: "int \<Rightarrow> error + int" where
  "chr_py i = (if 0 \<le> i \<and> i \<le> 0x10FFFF then Inr i else Inl ChrOutOfRange)"

subsection \<open>The builtin \<^verbatim>\<open>int(s, 16)\<close>\<close>

text \<open>
  Leading and trailing whitespace is skipped, one sign is accepted, then an optional
  \<^verbatim>\<open>0x\<close> or \<^verbatim>\<open>0X\<close> prefix (which may be followed by one underscore), then hexadecimal
  digits of either case, where single underscores may separate digits. At least one digit
  is required.
\<close>

definition isspace :: "char \<Rightarrow> bool" where
  "isspace c = (c \<in> set [CHR 0x09, CHR 0x0A, CHR 0x0B, CHR 0x0C, CHR 0x0D, CHR 0x20,
                          CHR 0x85, CHR 0xA0])"

definition digit_value :: "char \<Rightarrow> nat option" where
  "digit_value c =
     (let n = (of_char c :: nat) in
      if 48 \<le> n \<and> n \<le> 57 then Some (n - 48)
      else if 97 \<le> n \<and> n \<le> 102 then Some (n - 87)
      else if 65 \<le> n \<and> n \<le> 70 then Some (n - 55)
      else None)"

fun scan_digits :: "char \<Rightarrow> int \<Rightarrow> string \<Rightarrow> (int \<times> string) option" where
  "scan_digits prev acc [] = (if prev = CHR ''_'' then None else Some (acc, []))"
| "scan_digits prev acc (c # cs) =
     (if c = CHR ''_'' then (if prev = CHR ''_'' then None else scan_digits c acc cs)
      else case digit_value c of
          Some d \<Rightarrow> scan_digits c (acc * 16 + int d) cs
        | None \<Rightarrow> (if prev = CHR ''_'' then None else Some (acc, c # cs)))"

definition split_sign :: "string \<Rightarrow> int \<times> string" where
  "split_sign s =
     (case s of
        [] \<Rightarrow> (1, s)
      | c # cs \<Rightarrow> if c = CHR ''+'' then (1, cs) else if c = CHR ''-'' then (- 1, cs) else (1, s))"

definition strip_prefix16 :: "string \<Rightarrow> string" where
  "strip_prefix16 s =
     (case s of
        c0 # c1 # rest \<Rightarrow>
          if c0 = CHR ''0'' \<and> (c1 = CHR ''x'' \<or> c1 = CHR ''X'')
          then (case rest of c2 # rest' \<Rightarrow> if c2 = CHR ''_'' then rest' else rest | [] \<Rightarrow> rest)
          else s
      | _ \<Rightarrow> s)"

definition int16 :: "string \<Rightarrow> error + int" where
  "int16 s =
     (case split_sign (dropWhile isspace s) of
        (sign, s2) \<Rightarrow>
          let s3 = strip_prefix16 s2 in
          if take 1 s3 = ''_'' then Inl InvalidLiteral
          else case scan_digits (CHR 0x00) 0 s3 of
              None \<Rightarrow> Inl InvalidLiteral
            | Some (v, rest) \<Rightarrow>
                if length rest = length s3 then Inl InvalidLiteral
                else if list_all isspace rest then Inr (sign * v)
                else Inl InvalidLiteral)"

subsection \<open>The builtin \<^verbatim>\<open>hex(n)\<close> and \<^verbatim>\<open>bytes.hex()\<close>\<close>

definition hex_digit :: "nat \<Rightarrow> char" where
  "hex_digit d = ''0123456789abcdef'' ! (d mod 16)"

fun hex_digits :: "nat \<Rightarrow> string" where
  "hex_digits n = (if n < 16 then [hex_digit n] else hex_digits (n div 16) @ [hex_digit (n mod 16)])"

declare hex_digits.simps [simp del]

definition hex :: "int \<Rightarrow> string" where
  "hex n = (if n < 0 then ''-0x'' @ hex_digits (nat (- n)) else ''0x'' @ hex_digits (nat n))"

definition bytes_hex :: "byte list \<Rightarrow> string" where
  "bytes_hex bs = concat (map (\<lambda>b. [hex_digit (unat b div 16), hex_digit (unat b mod 16)]) bs)"

definition lower_hex_digit :: "char \<Rightarrow> bool" where
  "lower_hex_digit c = (c \<in> set ''0123456789abcdef'')"

text \<open>The unsigned integer a byte string denotes, most significant byte first.\<close>

definition bytes_value :: "byte list \<Rightarrow> int" where
  "bytes_value bs = foldl (\<lambda>a b. a * 256 + uint b) 0 bs"

text \<open>The integer a run of hexadecimal digits denotes, most significant digit first.\<close>

definition digits_value :: "int \<Rightarrow> string \<Rightarrow> int" where
  "digits_value acc ds = foldl (\<lambda>a c. a * 16 + int (the (digit_value c))) acc ds"

section \<open>The numeral codec (generate.py)\<close>

text \<open>
  \<^verbatim>\<open>hex_to_program\<close>: the loop body runs \<^verbatim>\<open>program_length\<close> times (not at all when it is
  negative), dividing the accumulator by \<^verbatim>\<open>ascii_range\<close>.
\<close>

fun hex_to_program_loop :: "nat \<Rightarrow> int \<Rightarrow> int \<Rightarrow> int \<Rightarrow> pystr \<Rightarrow> error + pystr" where
  "hex_to_program_loop 0 program_number ascii_range ascii_min program = Inr program"
| "hex_to_program_loop (Suc k) program_number ascii_range ascii_min program =
     (if ascii_range = 0 then Inl ZeroDivisionError
      else let char_index = program_number mod ascii_range;
               program_number' = program_number div ascii_range
           in case chr_py (ascii_min + char_index) of
                Inl e \<Rightarrow> Inl e
              | Inr c \<Rightarrow> hex_to_program_loop k program_number' ascii_range ascii_min (program @ [c]))"

definition hex_to_program :: "string \<Rightarrow> int \<Rightarrow> int \<Rightarrow> int \<Rightarrow> error + pystr" where
  "hex_to_program hex_string program_length ascii_range ascii_min =
     (case int16 hex_string of
        Inl e \<Rightarrow> Inl e
      | Inr program_number \<Rightarrow>
          hex_to_program_loop (nat program_length) program_number ascii_range ascii_min [])"

text \<open>\<^verbatim>\<open>hex_to_program_slow\<close>: one power of \<^verbatim>\<open>ascii_range\<close> per position.\<close>

fun hex_to_program_slow_loop :: "nat list \<Rightarrow> int \<Rightarrow> int \<Rightarrow> int \<Rightarrow> pystr \<Rightarrow> error + pystr" where
  "hex_to_program_slow_loop [] program_number ascii_range ascii_min program = Inr program"
| "hex_to_program_slow_loop (position # rest) program_number ascii_range ascii_min program =
     (if ascii_range ^ position = 0 then Inl ZeroDivisionError
      else if ascii_range = 0 then Inl ZeroDivisionError
      else let char_index = (program_number div (ascii_range ^ position)) mod ascii_range
           in case chr_py (char_index + ascii_min) of
                Inl e \<Rightarrow> Inl e
              | Inr c \<Rightarrow> hex_to_program_slow_loop rest program_number ascii_range ascii_min (program @ [c]))"

definition hex_to_program_slow :: "string \<Rightarrow> int \<Rightarrow> int \<Rightarrow> int \<Rightarrow> error + pystr" where
  "hex_to_program_slow hex_string program_length ascii_range ascii_min =
     (case int16 hex_string of
        Inl e \<Rightarrow> Inl e
      | Inr program_number \<Rightarrow>
          hex_to_program_slow_loop [0..<nat program_length] program_number ascii_range ascii_min [])"

text \<open>
  \<^verbatim>\<open>program_to_hex\<close>: Horner's scheme over the reversed program. Nothing in it raises.
  \<open>program_number_of\<close> is the integer it passes to \<^verbatim>\<open>hex\<close>.
\<close>

definition program_number_of :: "pystr \<Rightarrow> int \<Rightarrow> int \<Rightarrow> int" where
  "program_number_of program ascii_min ascii_range =
     foldl (\<lambda>program_number char. program_number * ascii_range + (char - ascii_min)) 0 (rev program)"

definition program_to_hex :: "pystr \<Rightarrow> int \<Rightarrow> int \<Rightarrow> string" where
  "program_to_hex program ascii_min ascii_range = hex (program_number_of program ascii_min ascii_range)"

text \<open>\<^verbatim>\<open>program_to_hex_slow\<close>: checks every character, then adds its positional value.\<close>

fun program_to_hex_slow_loop :: "(nat \<times> int) list \<Rightarrow> int \<Rightarrow> int \<Rightarrow> int \<Rightarrow> int \<Rightarrow> error + int" where
  "program_to_hex_slow_loop [] ascii_min ascii_max ascii_range program_number = Inr program_number"
| "program_to_hex_slow_loop ((position, char) # rest) ascii_min ascii_max ascii_range program_number =
     (if char < ascii_min \<or> char > ascii_max then Inl (NotReadable char position)
      else let char_index = char - ascii_min
           in program_to_hex_slow_loop rest ascii_min ascii_max ascii_range
                (program_number + char_index * ascii_range ^ position))"

definition program_to_hex_slow :: "pystr \<Rightarrow> int \<Rightarrow> int \<Rightarrow> int \<Rightarrow> error + string" where
  "program_to_hex_slow program ascii_min ascii_max ascii_range =
     (case program_to_hex_slow_loop (enumerate 0 program) ascii_min ascii_max ascii_range 0 of
        Inl e \<Rightarrow> Inl e
      | Inr program_number \<Rightarrow> Inr (hex program_number))"

text \<open>A program over the alphabet \<open>[ascii_min, ascii_min + ascii_range - 1]\<close>.\<close>

definition in_alphabet :: "int \<Rightarrow> int \<Rightarrow> pystr \<Rightarrow> bool" where
  "in_alphabet ascii_min ascii_range program =
     list_all (\<lambda>c. ascii_min \<le> c \<and> c \<le> ascii_min + ascii_range - 1) program"

section \<open>The sample generator (generate.py, experiment.py)\<close>

text \<open>
  The random generator is the stream of bytes it will hand out: \<^verbatim>\<open>rng.bytes(n)\<close> takes the
  next \<open>n\<close> bytes and leaves the rest. \<^verbatim>\<open>random_hex\<close> prints them with \<^verbatim>\<open>bytes.hex()\<close>.
\<close>

definition rng_bytes :: "nat \<Rightarrow> byte stream \<Rightarrow> byte list \<times> byte stream" where
  "rng_bytes n rng = (stake n rng, sdrop n rng)"

definition random_hex :: "nat \<Rightarrow> byte stream \<Rightarrow> string \<times> byte stream" where
  "random_hex bytes_needed rng =
     (case rng_bytes bytes_needed rng of (bs, rng') \<Rightarrow> (bytes_hex bs, rng'))"

text \<open>
  The fields of \<^verbatim>\<open>GeneratorConfig\<close> the codec reads, and its computed fields. The field
  \<^verbatim>\<open>bytes_needed\<close> is computed in floating point (\<^verbatim>\<open>math.log2\<close>); the loop below takes it
  as an argument.
\<close>

record GeneratorConfig =
  line_length :: int
  total_lines :: int
  ascii_min :: int
  ascii_max :: int

definition program_length :: "GeneratorConfig \<Rightarrow> int" where
  "program_length cfg = line_length cfg * total_lines cfg"

definition ascii_range :: "GeneratorConfig \<Rightarrow> int" where
  "ascii_range cfg = ascii_max cfg - ascii_min cfg + 1"

text \<open>
  The first loop of \<^verbatim>\<open>Experiment.run\<close>: draw until \<^verbatim>\<open>hex_program_map\<close> holds
  \<^verbatim>\<open>n_samples\<close> keys. The dictionary is the list of its items in insertion order. The loop
  has no bound, so not returning is the value \<open>None\<close>; an exception raised inside the loop
  is \<open>Some (Inl e)\<close>.
\<close>

partial_function (option) generate_samples ::
  "GeneratorConfig \<Rightarrow> nat \<Rightarrow> int \<Rightarrow> byte stream \<Rightarrow> (string \<times> pystr) list
    \<Rightarrow> (error + (string \<times> pystr) list \<times> byte stream) option"
where
  "generate_samples cfg bytes_needed n_samples rng hex_program_map =
     (if int (length hex_program_map) < n_samples then
        (case random_hex bytes_needed rng of
           (hx, rng') \<Rightarrow>
             if hx \<notin> set (map fst hex_program_map) then
               (case hex_to_program hx (program_length cfg) (ascii_range cfg) (ascii_min cfg) of
                  Inl e \<Rightarrow> Some (Inl e)
                | Inr program \<Rightarrow>
                    generate_samples cfg bytes_needed n_samples rng'
                      (hex_program_map @ [(hx, program)]))
             else generate_samples cfg bytes_needed n_samples rng' hex_program_map)
      else Some (Inr (hex_program_map, rng)))"

text \<open>The strings \<^verbatim>\<open>random_hex\<close> can return for a given number of bytes.\<close>

definition drawn_keys :: "nat \<Rightarrow> (string \<times> pystr) list \<Rightarrow> bool" where
  "drawn_keys bytes_needed hex_program_map =
     (distinct (map fst hex_program_map)
      \<and> set (map fst hex_program_map) \<subseteq> bytes_hex ` {bs. length bs = bytes_needed})"

section \<open>The batch coordinator (experiment.py)\<close>

text \<open>
  \<^verbatim>\<open>worker\<close> pairs an identifier with the result of running its program; the runner is a
  parameter. The dictionary comprehension at the end of \<^verbatim>\<open>Experiment.run\<close> stores, in the
  order of \<^verbatim>\<open>results\<close>, every pair whose result is a success.
\<close>

definition worker :: "(pystr \<Rightarrow> ExecutionResult) \<Rightarrow> string \<Rightarrow> pystr \<Rightarrow> string \<times> ExecutionResult" where
  "worker runner_run hx program = (hx, runner_run program)"

definition collect_successful :: "(string \<times> ExecutionResult) list \<Rightarrow> (string \<rightharpoonup> ExecutionResult)" where
  "collect_successful results =
     foldl (\<lambda>out (hx, result). if success result then out(hx \<mapsto> result) else out) Map.empty results"

definition run_batch ::
  "(pystr \<Rightarrow> ExecutionResult) \<Rightarrow> (string \<times> pystr) list \<Rightarrow> (string \<rightharpoonup> ExecutionResult)" where
  "run_batch runner_run hex_program_map =
     collect_successful (map (\<lambda>(hx, program). worker runner_run hx program) hex_program_map)"

section \<open>Outcome classification\<close>

text \<open>
  Claim C3. For every execution result with return code rc: ok holds iff rc = 0, timed_out
  holds iff rc = 124 (the sentinel of a timeout wrapper), success holds iff ok or timed_out,
  and every other non-zero return code is failed: ok, timed_out and success are all false.
\<close>

theorem classification:
  "(ok r \<longleftrightarrow> returncode r = 0)
   \<and> (timed_out r \<longleftrightarrow> returncode r = 124)
   \<and> (success r \<longleftrightarrow> ok r \<or> timed_out r)
   \<and> (returncode r \<noteq> 0 \<and> returncode r \<noteq> 124 \<longrightarrow> \<not> ok r \<and> \<not> timed_out r \<and> \<not> success r)"
  by (simp add: ok_def timed_out_def success_def)

theorem classification_witness:
  "returncode \<lparr>returncode = 1, stdout = [], stderr = []\<rparr> \<noteq> 0
   \<and> returncode \<lparr>returncode = 1, stdout = [], stderr = []\<rparr> \<noteq> 124
   \<and> \<not> ok \<lparr>returncode = 1, stdout = [], stderr = []\<rparr>
   \<and> \<not> timed_out \<lparr>returncode = 1, stdout = [], stderr = []\<rparr>
   \<and> \<not> success \<lparr>returncode = 1, stdout = [], stderr = []\<rparr>
   \<and> success \<lparr>returncode = 124, stdout = [], stderr = []\<rparr>
   \<and> success \<lparr>returncode = 0, stdout = [], stderr = []\<rparr>"
  using classification [of "\<lparr>returncode = 1, stdout = [], stderr = []\<rparr>"]
    classification [of "\<lparr>returncode = 124, stdout = [], stderr = []\<rparr>"]
    classification [of "\<lparr>returncode = 0, stdout = [], stderr = []\<rparr>"]
  by simp

text \<open>
  Claim C10. The truth value of an execution result is true exactly when its return code is 0:
  it equals ok, not success. A timed-out result (return code 124) is falsy although its
  success property is true, so truth value and success disagree on timed-out outcomes.
\<close>

theorem truthiness_is_ok:
  "(bool_result r \<longleftrightarrow> returncode r = 0)
   \<and> bool_result r = ok r
   \<and> (returncode r = 124 \<longrightarrow> \<not> bool_result r \<and> success r)
   \<and> (bool_result r \<noteq> success r \<longleftrightarrow> timed_out r)"
  by (auto simp add: bool_result_def ok_def timed_out_def success_def)

theorem truthiness_is_ok_witness:
  "returncode \<lparr>returncode = 124, stdout = [], stderr = []\<rparr> = 124
   \<and> \<not> bool_result \<lparr>returncode = 124, stdout = [], stderr = []\<rparr>
   \<and> success \<lparr>returncode = 124, stdout = [], stderr = []\<rparr>"
  using truthiness_is_ok [of "\<lparr>returncode = 124, stdout = [], stderr = []\<rparr>"]
  by simp

section \<open>Hexadecimal text and integers\<close>

text \<open>Parsing what \<^verbatim>\<open>hex\<close> or \<^verbatim>\<open>bytes.hex\<close> printed gives the integer back.\<close>

lemma hex_digit_cases: "list_all (\<lambda>d. digit_value (hex_digit d) = Some d \<and> lower_hex_digit (hex_digit d)) [0..<16]"
  by code_simp

lemma digit_value_hex_digit: "d < 16 \<Longrightarrow> digit_value (hex_digit d) = Some d"
  using hex_digit_cases by (simp add: list_all_iff)

lemma lower_hex_digit_hex_digit: "lower_hex_digit (hex_digit d)"
proof -
  have "d mod 16 < 16" by simp
  then have "lower_hex_digit (hex_digit (d mod 16))"
    using hex_digit_cases by (simp add: list_all_iff del: mod_less_divisor)
  then show ?thesis by (simp add: hex_digit_def)
qed

lemma lower_hex_digit_props:
  assumes "lower_hex_digit c"
  shows "c \<noteq> CHR ''_''" "\<not> isspace c" "c \<noteq> CHR ''+''" "c \<noteq> CHR ''-''"
    "c \<noteq> CHR ''x''" "c \<noteq> CHR ''X''" "digit_value c \<noteq> None"
  using assms by (auto simp: lower_hex_digit_def isspace_def digit_value_def)

lemma scan_digits_all:
  "list_all lower_hex_digit ds \<Longrightarrow> ds \<noteq> [] \<or> prev \<noteq> CHR ''_'' \<Longrightarrow>
   scan_digits prev acc ds = Some (digits_value acc ds, [])"
proof (induction ds arbitrary: prev acc)
  case Nil
  then show ?case by (simp add: digits_value_def)
next
  case (Cons c cs)
  from Cons.prems have c: "lower_hex_digit c" and cs: "list_all lower_hex_digit cs" by simp_all
  from lower_hex_digit_props [OF c] obtain d where d: "digit_value c = Some d" and nu: "c \<noteq> CHR ''_''"
    by auto
  have "scan_digits c (acc * 16 + int d) cs = Some (digits_value (acc * 16 + int d) cs, [])"
    using Cons.IH [OF cs] nu by simp
  then show ?case using d nu by (simp add: digits_value_def)
qed

lemma int16_digits:
  assumes "list_all lower_hex_digit ds" "ds \<noteq> []"
  shows "int16 ds = Inr (digits_value 0 ds)"
proof -
  obtain c cs where ds: "ds = c # cs" using assms(2) by (cases ds) auto
  have c: "lower_hex_digit c" using assms(1) ds by simp
  note p = lower_hex_digit_props [OF c]
  have 1: "dropWhile isspace ds = ds" using p ds by simp
  have 2: "split_sign ds = (1, ds)" using p ds by (simp add: split_sign_def)
  have 3: "strip_prefix16 ds = ds"
  proof (cases cs)
    case Nil then show ?thesis using ds by (simp add: strip_prefix16_def)
  next
    case (Cons c1 rest)
    then have "lower_hex_digit c1" using assms(1) ds by simp
    from lower_hex_digit_props [OF this] show ?thesis using ds Cons by (simp add: strip_prefix16_def)
  qed
  have 4: "scan_digits (CHR 0x00) 0 ds = Some (digits_value 0 ds, [])"
    using scan_digits_all [OF assms(1)] assms(2) by simp
  show ?thesis using 1 2 3 4 p ds by (simp add: int16_def)
qed

lemma int16_0x:
  assumes "list_all lower_hex_digit ds" "ds \<noteq> []"
  shows "int16 (''0x'' @ ds) = Inr (digits_value 0 ds)"
    and "int16 (''-0x'' @ ds) = Inr (- digits_value 0 ds)"
proof -
  obtain c cs where ds: "ds = c # cs" using assms(2) by (cases ds) auto
  have c: "lower_hex_digit c" using assms(1) ds by simp
  note p = lower_hex_digit_props [OF c]
  have 3: "strip_prefix16 (''0x'' @ ds) = ds" using ds p by (simp add: strip_prefix16_def)
  have 4: "scan_digits (CHR 0x00) 0 ds = Some (digits_value 0 ds, [])"
    using scan_digits_all [OF assms(1)] assms(2) by simp
  have s0: "\<not> isspace CHR ''0''" "\<not> isspace CHR ''-''" by (simp_all add: isspace_def)
  have 2: "split_sign (''0x'' @ ds) = (1, ''0x'' @ ds)" by (simp add: split_sign_def)
  have sg: "split_sign (''-0x'' @ ds) = (- 1, ''0x'' @ ds)" by (simp add: split_sign_def)
  show "int16 (''0x'' @ ds) = Inr (digits_value 0 ds)"
    unfolding int16_def using s0 2 3 4 p ds by simp
  show "int16 (''-0x'' @ ds) = Inr (- digits_value 0 ds)"
    unfolding int16_def using s0 sg 3 4 p ds by simp
qed

lemma hex_digits_lower: "list_all lower_hex_digit (hex_digits n)"
  by (induction n rule: hex_digits.induct) (subst hex_digits.simps, simp add: lower_hex_digit_hex_digit)

lemma hex_digits_nonempty: "hex_digits n \<noteq> []"
  by (subst hex_digits.simps) simp

lemma digits_value_snoc: "digits_value acc (ds @ [c]) = digits_value acc ds * 16 + int (the (digit_value c))"
  by (simp add: digits_value_def)

lemma digits_value_hex_digits: "digits_value 0 (hex_digits n) = int n"
proof (induction n rule: hex_digits.induct)
  case (1 n)
  show ?case
  proof (cases "n < 16")
    case True
    then show ?thesis
      by (subst hex_digits.simps) (simp add: digits_value_def digit_value_hex_digit)
  next
    case False
    have "digits_value 0 (hex_digits n) = digits_value 0 (hex_digits (n div 16)) * 16 + int (n mod 16)"
      using False by (subst hex_digits.simps) (simp add: digits_value_snoc digit_value_hex_digit)
    also have "\<dots> = int (n div 16) * 16 + int (n mod 16)" using 1 False by simp
    also have "\<dots> = int n" by (simp add: zdiv_int zmod_int)
    finally show ?thesis .
  qed
qed

lemma int16_hex: "int16 (hex n) = Inr n"
  using int16_0x [OF hex_digits_lower hex_digits_nonempty]
  by (simp add: hex_def digits_value_hex_digits)

lemma digits_value_bytes_hex: "digits_value acc (bytes_hex bs) = foldl (\<lambda>a b. a * 256 + uint b) acc bs"
proof (induction bs arbitrary: acc)
  case Nil
  then show ?case by (simp add: bytes_hex_def digits_value_def)
next
  case (Cons b bs)
  have "unat b < 2 ^ LENGTH(8)" by (rule unsigned_less)
  then have lt: "unat b div 16 < 16" by simp
  have "digits_value acc (bytes_hex (b # bs))
        = digits_value ((acc * 16 + int (unat b div 16)) * 16 + int (unat b mod 16)) (bytes_hex bs)"
    using lt by (simp add: bytes_hex_def digits_value_def digit_value_hex_digit)
  also have "(acc * 16 + int (unat b div 16)) * 16 + int (unat b mod 16) = acc * 256 + uint b"
    by (simp add: algebra_simps zdiv_int zmod_int) 
  finally show ?case using Cons.IH by simp
qed

lemma bytes_hex_lower: "list_all lower_hex_digit (bytes_hex bs)"
  by (induction bs) (simp_all add: bytes_hex_def lower_hex_digit_hex_digit)

lemma length_bytes_hex: "length (bytes_hex bs) = 2 * length bs"
  by (induction bs) (simp_all add: bytes_hex_def)

lemma int16_bytes_hex: "bs \<noteq> [] \<Longrightarrow> int16 (bytes_hex bs) = Inr (bytes_value bs)"
proof -
  assume "bs \<noteq> []"
  then have "bytes_hex bs \<noteq> []" using length_bytes_hex [of bs] by auto
  from int16_digits [OF bytes_hex_lower this] show ?thesis
    by (simp add: digits_value_bytes_hex bytes_value_def)
qed

lemma int16_empty: "int16 [] = Inl InvalidLiteral"
  by (simp add: int16_def split_sign_def strip_prefix16_def)

section \<open>Arithmetic of the codec\<close>

lemma program_number_of_Nil: "program_number_of [] mn r = 0"
  by (simp add: program_number_of_def)

lemma program_number_of_Cons:
  "program_number_of (c # cs) mn r = program_number_of cs mn r * r + (c - mn)"
  by (simp add: program_number_of_def)

lemma digit_mod: "0 \<le> d \<Longrightarrow> d < r \<Longrightarrow> (q * r + d) mod r = (d::int)"
  by simp

lemma digit_div: "0 \<le> d \<Longrightarrow> d < r \<Longrightarrow> (q * r + d) div r = (q::int)"
  by simp

lemma mod_power_step:
  assumes "1 \<le> (r::int)"
  shows "(n div r mod r ^ k) * r + n mod r = n mod r ^ Suc k"
proof -
  have "0 \<le> r ^ k" using assms by simp
  from zmod_zmult2_eq [OF this, of n r] show ?thesis by (simp add: mult.commute)
qed

lemma mod_power_mod:
  assumes "1 \<le> (r::int)"
  shows "n mod r ^ Suc k mod r = n mod r"
  by (rule mod_mod_cancel) simp

lemma mod_power_div:
  assumes "1 \<le> (r::int)"
  shows "n mod r ^ Suc k div r = n div r mod r ^ k"
proof -
  have "n mod r ^ Suc k = (n div r mod r ^ k) * r + n mod r"
    using mod_power_step [OF assms] by simp
  moreover have "0 \<le> n mod r" "n mod r < r" using assms by simp_all
  ultimately show ?thesis using digit_div by simp
qed

lemma chr_py_valid: "0 \<le> c \<Longrightarrow> c \<le> 0x10FFFF \<Longrightarrow> chr_py c = Inr c"
  by (simp add: chr_py_def)

section \<open>Decoding after encoding\<close>

lemma decode_encode_loop:
  "is_str p \<Longrightarrow> in_alphabet mn r p \<Longrightarrow>
   hex_to_program_loop (length p) (program_number_of p mn r) r mn acc = Inr (acc @ p)"
proof (induction p arbitrary: acc)
  case Nil
  then show ?case by simp
next
  case (Cons c cs)
  from Cons.prems have c: "0 \<le> c" "c \<le> 0x10FFFF" "mn \<le> c" "c \<le> mn + r - 1"
    and cs: "is_str cs" "in_alphabet mn r cs"
    by (simp_all add: is_str_def in_alphabet_def)
  have d: "0 \<le> c - mn" "c - mn < r" using c by simp_all
  then have r: "r \<noteq> 0" by linarith
  have m: "program_number_of (c # cs) mn r mod r = c - mn"
    unfolding program_number_of_Cons using d by (rule digit_mod)
  have q: "program_number_of (c # cs) mn r div r = program_number_of cs mn r"
    unfolding program_number_of_Cons using d by (rule digit_div)
  have "chr_py (mn + (c - mn)) = Inr c" using c by (simp add: chr_py_valid)
  then show ?case using r m q Cons.IH [OF cs, of "acc @ [c]"] by simp
qed

section \<open>Encoding after decoding\<close>

lemma decode_loop_total:
  assumes "1 \<le> r" "0 \<le> mn" "mn + r - 1 \<le> 0x10FFFF"
  shows "\<exists>p. hex_to_program_loop k n r mn acc = Inr (acc @ p) \<and> length p = k
             \<and> in_alphabet mn r p \<and> is_str p \<and> program_number_of p mn r = n mod r ^ k"
proof (induction k arbitrary: n acc)
  case 0
  show ?case by (simp add: in_alphabet_def is_str_def program_number_of_Nil)
next
  case (Suc k)
  let ?c = "mn + n mod r"
  have d: "0 \<le> n mod r" "n mod r < r" using assms(1) by simp_all
  have cb: "0 \<le> ?c" "?c \<le> 0x10FFFF" using d assms by linarith+
  have c: "chr_py ?c = Inr ?c" using cb by (rule chr_py_valid)
  from Suc.IH [of "n div r" "acc @ [?c]"] obtain p where
    p: "hex_to_program_loop k (n div r) r mn (acc @ [?c]) = Inr ((acc @ [?c]) @ p)"
      "length p = k" "in_alphabet mn r p" "is_str p" "program_number_of p mn r = n div r mod r ^ k"
    by blast
  have 1: "hex_to_program_loop (Suc k) n r mn acc = Inr (acc @ (?c # p))"
    using assms(1) c p(1) by simp
  have 2: "in_alphabet mn r (?c # p)" using p(3) d by (simp add: in_alphabet_def)
  have 3: "is_str (?c # p)" using p(4) cb by (simp add: is_str_def)
  have 4: "program_number_of (?c # p) mn r = n mod r ^ Suc k"
    unfolding program_number_of_Cons p(5) using mod_power_step [OF assms(1), of n k] by simp
  from 1 2 3 4 p(2) show ?case by (intro exI [of _ "?c # p"]) simp
qed

section \<open>Decoding looks at the identifier modulo the size of the space\<close>

lemma decode_loop_mod:
  assumes "1 \<le> r"
  shows "hex_to_program_loop k (n mod r ^ k) r mn acc = hex_to_program_loop k n r mn acc"
proof (induction k arbitrary: n acc)
  case 0
  show ?case by simp
next
  case (Suc k)
  have r: "r \<noteq> 0" using assms by simp
  show ?case
    using r Suc.IH [of "n div r"]
    by (simp only: hex_to_program_loop.simps mod_power_mod [OF assms] mod_power_div [OF assms])
       (simp split: sum.splits)
qed

section \<open>The two decoders\<close>

lemma div_power_step:
  assumes "0 \<le> (r::int)"
  shows "n div r ^ j div r = n div r ^ Suc j"
proof -
  from zdiv_zmult2_eq [OF assms, of n "r ^ j"] show ?thesis by (simp add: mult.commute)
qed

lemma decode_loops_agree:
  assumes "0 \<le> r"
  shows "hex_to_program_slow_loop [j..<j + k] n r mn acc = hex_to_program_loop k (n div r ^ j) r mn acc"
proof (induction k arbitrary: j acc)
  case 0
  show ?case by simp
next
  case (Suc k)
  have u: "[j..<j + Suc k] = j # [Suc j..<Suc j + k]" by (simp add: upt_rec)
  show ?case
  proof (cases "r = 0")
    case True
    then show ?thesis unfolding u by simp
  next
    case False
    then have p: "r ^ j \<noteq> 0" by simp
    show ?thesis
      unfolding u using False p Suc.IH [of "Suc j"] div_power_step [OF assms, of n j]
      by (simp add: add.commute del: upt_Suc split: sum.splits)
  qed
qed

section \<open>The two encoders\<close>

lemma encode_slow_loop:
  "list_all (\<lambda>c. mn \<le> c \<and> c \<le> mx) p \<Longrightarrow>
   program_to_hex_slow_loop (enumerate j p) mn mx r acc = Inr (acc + r ^ j * program_number_of p mn r)"
proof (induction p arbitrary: j acc)
  case Nil
  show ?case by (simp add: program_number_of_Nil)
next
  case (Cons c cs)
  from Cons.prems have c: "\<not> (c < mn \<or> c > mx)" and cs: "list_all (\<lambda>c. mn \<le> c \<and> c \<le> mx) cs"
    by auto
  show ?case
    using c Cons.IH [OF cs, of "Suc j"]
    by (simp add: program_number_of_Cons algebra_simps)
qed

section \<open>Boundary identifiers\<close>

lemma decode_loop_zero:
  "r \<noteq> 0 \<Longrightarrow> hex_to_program_loop k 0 r mn acc =
     (if k = 0 then Inr acc
      else case chr_py mn of Inl e \<Rightarrow> Inl e | Inr c \<Rightarrow> Inr (acc @ replicate k c))"
proof (induction k arbitrary: acc)
  case 0
  show ?case by simp
next
  case (Suc k)
  then show ?case by (simp add: replicate_app_Cons_same split: sum.splits)
qed

lemma max_mod: "1 \<le> (r::int) \<Longrightarrow> (r ^ Suc k - 1) mod r = r - 1"
proof -
  assume r: "1 \<le> r"
  have "r ^ Suc k - 1 = (r ^ k - 1) * r + (r - 1)" by (simp add: algebra_simps)
  then have "(r ^ Suc k - 1) mod r = ((r ^ k - 1) * r + (r - 1)) mod r" by (simp only:)
  also have "\<dots> = r - 1" by (rule digit_mod) (use r in simp_all)
  finally show ?thesis .
qed

lemma max_div: "1 \<le> (r::int) \<Longrightarrow> (r ^ Suc k - 1) div r = r ^ k - 1"
proof -
  assume r: "1 \<le> r"
  have "r ^ Suc k - 1 = (r ^ k - 1) * r + (r - 1)" by (simp add: algebra_simps)
  then have "(r ^ Suc k - 1) div r = ((r ^ k - 1) * r + (r - 1)) div r" by (simp only:)
  also have "\<dots> = r ^ k - 1" by (rule digit_div) (use r in simp_all)
  finally show ?thesis .
qed

lemma decode_loop_max:
  "1 \<le> r \<Longrightarrow> hex_to_program_loop k (r ^ k - 1) r mn acc =
     (if k = 0 then Inr acc
      else case chr_py (mn + r - 1) of Inl e \<Rightarrow> Inl e | Inr c \<Rightarrow> Inr (acc @ replicate k c))"
proof (induction k arbitrary: acc)
  case 0
  show ?case by simp
next
  case (Suc k)
  have e: "mn + (r - 1) = mn + r - 1" by simp
  from Suc show ?case
    by (simp only: hex_to_program_loop.simps max_mod max_div Let_def e)
       (simp add: replicate_app_Cons_same split: sum.splits)
qed

text \<open>The encoder maps programs over the alphabet into the identifier range.\<close>

lemma program_number_of_bounds:
  "in_alphabet mn r p \<Longrightarrow>
   0 \<le> program_number_of p mn r \<and> program_number_of p mn r \<le> r ^ length p - 1"
proof (induction p)
  case Nil
  show ?case by (simp add: program_number_of_Nil)
next
  case (Cons c cs)
  from Cons.prems have d: "0 \<le> c - mn" "c - mn \<le> r - 1" and cs: "in_alphabet mn r cs"
    by (simp_all add: in_alphabet_def)
  from Cons.IH [OF cs] have n: "0 \<le> program_number_of cs mn r"
    "program_number_of cs mn r \<le> r ^ length cs - 1" by simp_all
  have r: "0 \<le> r" using d by linarith
  have lo: "0 \<le> program_number_of cs mn r * r" using n(1) r by simp
  have "program_number_of cs mn r * r \<le> (r ^ length cs - 1) * r"
    using n(2) r by (rule mult_right_mono)
  then have hi: "program_number_of cs mn r * r + (c - mn) \<le> r ^ length (c # cs) - 1"
    using d(2) by (simp add: algebra_simps)
  show ?case unfolding program_number_of_Cons using lo d(1) hi by simp
qed

section \<open>Round trips\<close>

text \<open>
  Claim C1. The codec is a bijection with exact round trips. For every program \<open>p\<close> of length
  \<open>L\<close> whose characters all lie in \<open>[min, min + range - 1]\<close>, decoding the encoding of \<open>p\<close>
  gives \<open>p\<close> back, and the encoding denotes an identifier in \<open>[0, range^L - 1]\<close>. For every identifier \<open>n\<close> in \<open>[0, range^L - 1]\<close> (over an alphabet of
  character codes), decoding \<open>hex n\<close> gives a program of length \<open>L\<close> over the alphabet, and
  parsing its encoding gives \<open>n\<close> back; both ends of the identifier range are included.
\<close>

theorem codec_round_trip:
  "(is_str p \<and> in_alphabet mn r p \<longrightarrow>
      hex_to_program (program_to_hex p mn r) (int (length p)) r mn = Inr p
      \<and> (\<exists>i. int16 (program_to_hex p mn r) = Inr i \<and> 0 \<le> i \<and> i \<le> r ^ length p - 1))
   \<and> (1 \<le> r \<and> 0 \<le> mn \<and> mn + r - 1 \<le> 0x10FFFF \<and> 0 \<le> n \<and> n \<le> r ^ L - 1 \<longrightarrow>
      (\<exists>q. hex_to_program (hex n) (int L) r mn = Inr q \<and> length q = L \<and> in_alphabet mn r q
           \<and> int16 (program_to_hex q mn r) = Inr n))"
proof (intro conjI impI)
  assume "is_str p \<and> in_alphabet mn r p"
  then show "hex_to_program (program_to_hex p mn r) (int (length p)) r mn = Inr p"
    using decode_encode_loop [of p mn r "[]"]
    by (simp add: hex_to_program_def program_to_hex_def int16_hex)
next
  assume "is_str p \<and> in_alphabet mn r p"
  then show "\<exists>i. int16 (program_to_hex p mn r) = Inr i \<and> 0 \<le> i \<and> i \<le> r ^ length p - 1"
    using program_number_of_bounds [of mn r p]
    by (simp add: program_to_hex_def int16_hex)
next
  assume a: "1 \<le> r \<and> 0 \<le> mn \<and> mn + r - 1 \<le> 0x10FFFF \<and> 0 \<le> n \<and> n \<le> r ^ L - 1"
  then have "1 \<le> r" "0 \<le> mn" "mn + r - 1 \<le> 0x10FFFF" by simp_all
  from decode_loop_total [OF this, of L n "[]"] obtain q where
    q: "hex_to_program_loop L n r mn [] = Inr q" "length q = L" "in_alphabet mn r q"
       "program_number_of q mn r = n mod r ^ L"
    by auto
  have "n mod r ^ L = n" using a by simp
  then have "int16 (program_to_hex q mn r) = Inr n"
    using q(4) by (simp add: program_to_hex_def int16_hex)
  moreover have "hex_to_program (hex n) (int L) r mn = Inr q"
    using q(1) by (simp add: hex_to_program_def int16_hex)
  ultimately show "\<exists>q. hex_to_program (hex n) (int L) r mn = Inr q \<and> length q = L
      \<and> in_alphabet mn r q \<and> int16 (program_to_hex q mn r) = Inr n"
    using q(2,3) by blast
qed

theorem codec_round_trip_witness:
  "is_str [104, 105] \<and> in_alphabet 32 95 [104, 105]
   \<and> hex_to_program (program_to_hex [104, 105] 32 95) 2 95 32 = Inr [104, 105]
   \<and> (\<exists>i. int16 (program_to_hex [104, 105] 32 95) = Inr i \<and> 0 \<le> i \<and> i \<le> 95 ^ 2 - 1)
   \<and> (\<exists>q. hex_to_program (hex 9024) 2 95 32 = Inr q \<and> length q = 2 \<and> in_alphabet 32 95 q
           \<and> int16 (program_to_hex q 32 95) = Inr 9024)
   \<and> (\<exists>q. hex_to_program (hex 0) 2 95 32 = Inr q \<and> length q = 2 \<and> in_alphabet 32 95 q
           \<and> int16 (program_to_hex q 32 95) = Inr 0)"
proof -
  have p: "is_str [104, 105] \<and> in_alphabet 32 95 [104, 105]"
    by (simp add: is_str_def in_alphabet_def)
  have a: "(1::int) \<le> 95 \<and> (0::int) \<le> 32 \<and> (32::int) + 95 - 1 \<le> 0x10FFFF \<and> (0::int) \<le> 9024
           \<and> (9024::int) \<le> 95 ^ 2 - 1"
    by simp
  have b: "(1::int) \<le> 95 \<and> (0::int) \<le> 32 \<and> (32::int) + 95 - 1 \<le> 0x10FFFF \<and> (0::int) \<le> 0
           \<and> (0::int) \<le> 95 ^ 2 - 1"
    by simp
  show ?thesis
    using p a b codec_round_trip [of "[104, 105]" 32 95 9024 2]
      codec_round_trip [of "[]" 32 95 0 2]
    by simp
qed

section \<open>Agreement of the two variants\<close>

text \<open>
  Claim C4. The direct-division and the positional-power variants agree on every input: for
  every hex string, every length, every range of at least 2 and every minimum, the two
  decoders return the same program or raise the same error; and for every program whose
  characters all lie in \<open>[min, min + range - 1]\<close> the two encoders return the same hex string.
\<close>

theorem variants_agree:
  "(2 \<le> r \<longrightarrow> hex_to_program h L r mn = hex_to_program_slow h L r mn)
   \<and> (in_alphabet mn r p \<longrightarrow>
        program_to_hex_slow p mn (mn + r - 1) r = Inr (program_to_hex p mn r))"
proof (intro conjI impI)
  assume "2 \<le> r"
  then have "0 \<le> r" by simp
  from decode_loops_agree [OF this, of 0] show "hex_to_program h L r mn = hex_to_program_slow h L r mn"
    by (simp add: hex_to_program_def hex_to_program_slow_def split: sum.splits)
next
  assume "in_alphabet mn r p"
  then have "list_all (\<lambda>c. mn \<le> c \<and> c \<le> mn + r - 1) p" by (simp add: in_alphabet_def)
  from encode_slow_loop [OF this, of 0 r 0]
  show "program_to_hex_slow p mn (mn + r - 1) r = Inr (program_to_hex p mn r)"
    by (simp add: program_to_hex_slow_def program_to_hex_def)
qed

theorem variants_agree_witness:
  "(2::int) \<le> 95 \<and> in_alphabet 32 95 [104, 105]
   \<and> hex_to_program ''0x0e13'' 3 95 32 = hex_to_program_slow ''0x0e13'' 3 95 32
   \<and> program_to_hex_slow [104, 105] 32 126 95 = Inr (program_to_hex [104, 105] 32 95)"
proof -
  have a: "(2::int) \<le> 95" by simp
  have b: "in_alphabet 32 95 [104, 105]" by (simp add: in_alphabet_def)
  show ?thesis
    using a b variants_agree [of 95 "''0x0e13''" 3 32 "[104, 105]"] by simp
qed

section \<open>Boundary identifiers decode to constant programs\<close>

text \<open>
  Claim C7. For every length \<open>L \<ge> 1\<close>, range of at least 2 and minimum, decoding identifier 0
  gives \<open>chr min\<close> repeated \<open>L\<close> times, and decoding identifier \<open>range^L - 1\<close> gives
  \<open>chr (min + range - 1)\<close> repeated \<open>L\<close> times (where \<open>chr\<close> raises, so does the decoder).
\<close>

theorem boundary_values:
  "1 \<le> L \<and> 2 \<le> r \<longrightarrow>
     hex_to_program (hex 0) (int L) r mn =
       (case chr_py mn of Inl e \<Rightarrow> Inl e | Inr c \<Rightarrow> Inr (replicate L c))
     \<and> hex_to_program (hex (r ^ L - 1)) (int L) r mn =
       (case chr_py (mn + r - 1) of Inl e \<Rightarrow> Inl e | Inr c \<Rightarrow> Inr (replicate L c))"
proof
  assume a: "1 \<le> L \<and> 2 \<le> r"
  then have r: "r \<noteq> 0" "1 \<le> r" and L: "L \<noteq> 0" by simp_all
  show "hex_to_program (hex 0) (int L) r mn =
       (case chr_py mn of Inl e \<Rightarrow> Inl e | Inr c \<Rightarrow> Inr (replicate L c))
     \<and> hex_to_program (hex (r ^ L - 1)) (int L) r mn =
       (case chr_py (mn + r - 1) of Inl e \<Rightarrow> Inl e | Inr c \<Rightarrow> Inr (replicate L c))"
    using L decode_loop_zero [OF r(1), of L mn "[]"] decode_loop_max [OF r(2), of L mn "[]"]
    by (simp add: hex_to_program_def int16_hex split: sum.splits)
qed

theorem boundary_values_witness:
  "(1::nat) \<le> 3 \<and> (2::int) \<le> 95
   \<and> hex_to_program (hex 0) 3 95 32 = Inr [32, 32, 32]
   \<and> hex_to_program (hex (95 ^ 3 - 1)) 3 95 32 = Inr [126, 126, 126]"
proof -
  have a: "(1::nat) \<le> 3 \<and> (2::int) \<le> 95" by simp
  show ?thesis
    using a boundary_values [of 3 95 32] by (simp add: chr_py_def numeral_3_eq_3)
qed

section \<open>Decoding wraps the identifier\<close>

text \<open>
  Claim C9. Decoding depends only on the identifier modulo \<open>range^L\<close>: if two hex strings
  parse to integers congruent modulo \<open>range^L\<close> (range at least 2), they decode to the same
  program. An identifier outside \<open>[0, range^L - 1]\<close> is wrapped, not rejected: with 95
  characters and length 1, the one-byte draws \<open>00\<close> and \<open>5f\<close> are distinct identifiers that
  decode to the same program.
\<close>

theorem decode_modulo:
  "(2 \<le> r \<and> int16 h = Inr a \<and> int16 h' = Inr b \<and> a mod r ^ L = b mod r ^ L \<longrightarrow>
      hex_to_program h (int L) r mn = hex_to_program h' (int L) r mn)
   \<and> fst (random_hex 1 (0x00 ## s)) = ''00'' \<and> fst (random_hex 1 (0x5f ## s)) = ''5f''
   \<and> hex_to_program ''00'' 1 95 32 = Inr [32] \<and> hex_to_program ''5f'' 1 95 32 = Inr [32]"
proof (intro conjI impI)
  assume a: "2 \<le> r \<and> int16 h = Inr a \<and> int16 h' = Inr b \<and> a mod r ^ L = b mod r ^ L"
  then have r: "1 \<le> r" by simp
  have "hex_to_program_loop L a r mn [] = hex_to_program_loop L (a mod r ^ L) r mn []"
    by (simp add: decode_loop_mod [OF r])
  also have "\<dots> = hex_to_program_loop L b r mn []"
    using a by (simp add: decode_loop_mod [OF r])
  finally show "hex_to_program h (int L) r mn = hex_to_program h' (int L) r mn"
    using a by (simp add: hex_to_program_def)
next
  show "fst (random_hex 1 (0x00 ## s)) = ''00''"
    by (simp add: random_hex_def rng_bytes_def bytes_hex_def hex_digit_def)
  show "fst (random_hex 1 (0x5f ## s)) = ''5f''"
    by (simp add: random_hex_def rng_bytes_def bytes_hex_def hex_digit_def)
  show "hex_to_program ''00'' 1 95 32 = Inr [32]"
    by (simp add: hex_to_program_def int16_def split_sign_def strip_prefix16_def isspace_def
        digit_value_def chr_py_def)
  show "hex_to_program ''5f'' 1 95 32 = Inr [32]"
    by (simp add: hex_to_program_def int16_def split_sign_def strip_prefix16_def isspace_def
        digit_value_def chr_py_def)
qed

theorem decode_modulo_witness:
  "(2::int) \<le> 95 \<and> int16 ''0x5f'' = Inr 95 \<and> int16 ''0x0'' = Inr 0 \<and> (95::int) mod 95 ^ 1 = 0 mod 95 ^ 1
   \<and> hex_to_program ''0x5f'' 1 95 32 = hex_to_program ''0x0'' 1 95 32"
proof -
  have a: "int16 ''0x5f'' = Inr 95" "int16 ''0x0'' = Inr 0"
    by (simp_all add: int16_def split_sign_def strip_prefix16_def isspace_def digit_value_def)
  have b: "(2::int) \<le> 95 \<and> (95::int) mod 95 ^ 1 = 0 mod 95 ^ 1" by simp
  show ?thesis
    using a b decode_modulo [of 95 "''0x5f''" 95 "''0x0''" 0 1 32] by simp
qed

section \<open>The text of identifiers\<close>

lemma hex_digits_eq_zero: "hex_digits m = ''0'' \<Longrightarrow> m = 0"
proof -
  assume "hex_digits m = ''0''"
  then have "digits_value 0 (hex_digits m) = digits_value 0 ''0''" by simp
  then show "m = 0" by (simp add: digits_value_hex_digits) (simp add: digits_value_def digit_value_def)
qed

lemma hex_digits_no_padding: "hd (hex_digits n) = CHR ''0'' \<Longrightarrow> hex_digits n = ''0''"
proof (induction n rule: hex_digits.induct)
  case (1 n)
  show ?case
  proof (cases "n < 16")
    case True
    with "1.prems" show ?thesis by (subst (asm) hex_digits.simps, subst hex_digits.simps) simp
  next
    case False
    have "hd (hex_digits n) = hd (hex_digits (n div 16))"
      using False hex_digits_nonempty [of "n div 16"] by (subst hex_digits.simps) simp
    with "1.prems" "1.IH" False have "hex_digits (n div 16) = ''0''" by simp
    then have "n div 16 = 0" by (rule hex_digits_eq_zero)
    with False show ?thesis by simp
  qed
qed

text \<open>
  Claim C8, as amended. An identifier string made by the encoder \<^verbatim>\<open>program_to_hex\<close> from a
  program over the alphabet is \<open>0x\<close> followed by lowercase hexadecimal digits with no leading
  zero beyond the single digit of zero, and parsing it recovers the integer it was printed
  from. An identifier string made by \<^verbatim>\<open>random_hex\<close> has no \<open>0x\<close> prefix: it is exactly two
  lowercase hexadecimal digits per drawn byte, leading zeros kept, and for at least one byte
  parsing it recovers the integer the bytes denote.
\<close>

theorem identifier_text:
  "(in_alphabet mn r p \<longrightarrow>
      (\<exists>ds. program_to_hex p mn r = ''0x'' @ ds \<and> ds \<noteq> [] \<and> list_all lower_hex_digit ds
          \<and> (hd ds = CHR ''0'' \<longrightarrow> ds = ''0'')))
   \<and> int16 (program_to_hex p mn r) = Inr (program_number_of p mn r)
   \<and> length (fst (random_hex bn rng)) = 2 * bn
   \<and> list_all lower_hex_digit (fst (random_hex bn rng))
   \<and> (0 < bn \<longrightarrow> int16 (fst (random_hex bn rng)) = Inr (bytes_value (stake bn rng)))"
proof (intro conjI impI)
  assume "in_alphabet mn r p"
  then have "0 \<le> program_number_of p mn r" using program_number_of_bounds by blast
  then have "program_to_hex p mn r = ''0x'' @ hex_digits (nat (program_number_of p mn r))"
    by (simp add: program_to_hex_def hex_def)
  then show "\<exists>ds. program_to_hex p mn r = ''0x'' @ ds \<and> ds \<noteq> [] \<and> list_all lower_hex_digit ds
          \<and> (hd ds = CHR ''0'' \<longrightarrow> ds = ''0'')"
    using hex_digits_nonempty hex_digits_lower hex_digits_no_padding by blast
next
  show "int16 (program_to_hex p mn r) = Inr (program_number_of p mn r)"
    by (simp add: program_to_hex_def int16_hex)
  show "length (fst (random_hex bn rng)) = 2 * bn"
    by (simp add: random_hex_def rng_bytes_def length_bytes_hex)
  show "list_all lower_hex_digit (fst (random_hex bn rng))"
    by (simp add: random_hex_def rng_bytes_def bytes_hex_lower)
next
  assume "0 < bn"
  then have "stake bn rng \<noteq> []" by (cases bn) simp_all
  then show "int16 (fst (random_hex bn rng)) = Inr (bytes_value (stake bn rng))"
    by (simp add: random_hex_def rng_bytes_def int16_bytes_hex)
qed

theorem identifier_text_witness:
  "in_alphabet 32 95 [104, 105] \<and> program_to_hex [104, 105] 32 95 = ''0x1b5f''
   \<and> int16 ''0x1b5f'' = Inr 7007
   \<and> fst (random_hex 1 (sconst 0x0e)) = ''0e'' \<and> int16 ''0e'' = Inr 14"
proof -
  have a: "in_alphabet 32 95 [104, 105]" by (simp add: in_alphabet_def)
  have b: "program_to_hex [104, 105] 32 95 = ''0x1b5f''"
    by (simp add: program_to_hex_def program_number_of_def hex_def hex_digits.simps hex_digit_def)
  have c: "fst (random_hex 1 (sconst 0x0e)) = ''0e''"
    by (simp add: random_hex_def rng_bytes_def bytes_hex_def hex_digit_def)
  have d: "program_number_of [104, 105] 32 95 = 7007" by (simp add: program_number_of_def)
  have e: "bytes_value (stake 1 (sconst 0x0e)) = 14" by (simp add: bytes_value_def)
  have f: "(0::nat) < 1" by simp
  show ?thesis
    using a b c d e f identifier_text [of 32 95 "[104, 105]" 1 "sconst 0x0e"] by simp
qed

theorem identifier_text_counterexample:
  "fst (random_hex 1 (sconst 0x0e)) = ''0e''
   \<and> take 2 (fst (random_hex 1 (sconst 0x0e))) \<noteq> ''0x''
   \<and> hd (fst (random_hex 1 (sconst 0x0e))) = CHR ''0''
   \<and> fst (random_hex 1 (sconst 0x0e)) \<noteq> hex 14"
  by (simp add: random_hex_def rng_bytes_def bytes_hex_def hex_digit_def hex_def hex_digits.simps)

section \<open>The fast encoder does not check its input\<close>

text \<open>
  Claim C2, at a failing input. With alphabet \<open>[98, 99]\<close> the string \<open>a\<close> (code 97) is below
  the alphabet: \<^verbatim>\<open>program_to_hex_slow\<close> raises the error naming the character and position
  0, but \<^verbatim>\<open>program_to_hex\<close> returns \<open>-0x1\<close>. With alphabet \<open>[97, 98]\<close> the string \<open>z\<close> (code
  122) is above it: the slow encoder raises, the fast one returns \<open>0x19\<close>, which decodes to
  the different program \<open>b\<close>.
\<close>

theorem program_to_hex_unchecked:
  "program_to_hex_slow [97] 98 99 2 = Inl (NotReadable 97 0)
   \<and> program_to_hex [97] 98 2 = ''-0x1''
   \<and> program_to_hex_slow [122] 97 98 2 = Inl (NotReadable 122 0)
   \<and> program_to_hex [122] 97 2 = ''0x19''
   \<and> hex_to_program ''0x19'' 1 2 97 = Inr [98]"
  by (simp add: program_to_hex_slow_def enumerate_eq_zip program_to_hex_def program_number_of_def
      hex_def hex_digits.simps hex_digit_def hex_to_program_def int16_def split_sign_def
      strip_prefix16_def isspace_def digit_value_def chr_py_def)

section \<open>The sampling loop\<close>

lemma random_hex_eq: "random_hex bn rng = (bytes_hex (stake bn rng), sdrop bn rng)"
  by (simp add: random_hex_def rng_bytes_def)

lemma draw_decodes:
  assumes "1 \<le> bn" "1 \<le> ascii_range cfg" "0 \<le> ascii_min cfg" "ascii_max cfg \<le> 0x10FFFF"
  shows "\<exists>p. hex_to_program (bytes_hex (stake bn rng)) (program_length cfg) (ascii_range cfg)
               (ascii_min cfg) = Inr p"
proof -
  have "stake bn rng \<noteq> []" using assms(1) by (cases bn) simp_all
  then have i: "int16 (bytes_hex (stake bn rng)) = Inr (bytes_value (stake bn rng))"
    by (rule int16_bytes_hex)
  have "ascii_min cfg + ascii_range cfg - 1 \<le> 0x10FFFF"
    using assms(4) by (simp add: ascii_range_def)
  from decode_loop_total [OF assms(2,3) this, of "nat (program_length cfg)" _ "[]"]
  show ?thesis using i by (auto simp: hex_to_program_def)
qed

lemma card_byte_strings: "card {bs :: byte list. length bs = bn} = 256 ^ bn"
proof -
  have "card {bs :: byte list. set bs \<subseteq> UNIV \<and> length bs = bn} = card (UNIV :: byte set) ^ bn"
    by (rule card_lists_length_eq) simp
  then show ?thesis by (simp add: card_word)
qed

lemma finite_byte_strings: "finite {bs :: byte list. length bs = bn}"
  using finite_lists_length_eq [of "UNIV :: byte set" bn] by simp

lemma drawn_keys_bound:
  assumes "drawn_keys bn m"
  shows "length m \<le> 256 ^ bn"
proof -
  have "length m = card (set (map fst m))"
    using assms by (simp add: drawn_keys_def distinct_card del: set_map)
  also have "\<dots> \<le> card (bytes_hex ` {bs. length bs = bn})"
    using assms finite_byte_strings by (intro card_mono) (simp_all add: drawn_keys_def)
  also have "\<dots> \<le> card {bs :: byte list. length bs = bn}"
    using finite_byte_strings by (rule card_image_le)
  finally show ?thesis by (simp add: card_byte_strings)
qed

lemma drawn_keys_extend:
  assumes "drawn_keys bn m" "bytes_hex (stake bn rng) \<notin> set (map fst m)"
  shows "drawn_keys bn (m @ [(bytes_hex (stake bn rng), p)])"
  using assms by (auto simp: drawn_keys_def)

lemma generate_samples_no_error:
  assumes "generate_samples cfg bn n rng m = Some y"
    and "1 \<le> bn" "1 \<le> ascii_range cfg" "0 \<le> ascii_min cfg" "ascii_max cfg \<le> 0x10FFFF"
  shows "\<exists>res. y = Inr res"
  using assms
proof (induction cfg bn n rng m y rule: generate_samples.raw_induct [rotated 1, consumes 1])
  case (1 gen cfg bn n rng m y)
  from draw_decodes [OF "1.prems"] obtain p where
    p: "hex_to_program (bytes_hex (stake bn rng)) (program_length cfg) (ascii_range cfg)
          (ascii_min cfg) = Inr p" by blast
  show ?case
  proof (cases "int (length m) < n")
    case False
    with "1.hyps" show ?thesis by auto
  next
    case True
    show ?thesis
    proof (cases "bytes_hex (stake bn rng) \<in> set (map fst m)")
      case True
      with \<open>int (length m) < n\<close> "1.hyps"
      have "gen cfg bn n (sdrop bn rng) m = Some y" by (simp add: random_hex_eq)
      from "1.IH" [OF this "1.prems"] show ?thesis .
    next
      case False
      with \<open>int (length m) < n\<close> "1.hyps" p
      have "gen cfg bn n (sdrop bn rng) (m @ [(bytes_hex (stake bn rng), p)]) = Some y"
        by (simp add: random_hex_eq)
      from "1.IH" [OF this "1.prems"] show ?thesis .
    qed
  qed
qed

lemma generate_samples_exhausted:
  assumes "generate_samples cfg bn n rng m = Some y"
    and "drawn_keys bn m" "256 ^ bn < n"
  shows "\<exists>e. y = Inl e"
  using assms
proof (induction cfg bn n rng m y rule: generate_samples.raw_induct [rotated 1, consumes 1])
  case (1 gen cfg bn n rng m y)
  have "int (length m) \<le> 256 ^ bn"
    using drawn_keys_bound [OF "1.prems"(1)] by (metis of_nat_le_iff of_nat_numeral of_nat_power)
  then have lt: "int (length m) < n" using "1.prems"(2) by linarith
  show ?case
  proof (cases "bytes_hex (stake bn rng) \<in> set (map fst m)")
    case True
    with lt "1.hyps"
    have "gen cfg bn n (sdrop bn rng) m = Some y" by (simp add: random_hex_eq)
    from "1.IH" [OF this "1.prems"] show ?thesis .
  next
    case False
    show ?thesis
    proof (cases "hex_to_program (bytes_hex (stake bn rng)) (program_length cfg) (ascii_range cfg)
          (ascii_min cfg)")
      case (Inl e)
      with False lt "1.hyps" show ?thesis by (auto simp: random_hex_eq)
    next
      case (Inr p)
      with False lt "1.hyps"
      have "gen cfg bn n (sdrop bn rng) (m @ [(bytes_hex (stake bn rng), p)]) = Some y"
        by (simp add: random_hex_eq)
      from "1.IH" [OF this drawn_keys_extend [OF "1.prems"(1) False] "1.prems"(2)]
      show ?thesis .
    qed
  qed
qed

lemma generate_samples_returned:
  assumes "generate_samples cfg bn n rng m = Some y"
    and "distinct (map fst m)" "int (length m) \<le> max 0 n"
  shows "\<forall>m' rng'. y = Inr (m', rng') \<longrightarrow> int (length m') = max 0 n \<and> distinct (map fst m')"
  using assms
proof (induction cfg bn n rng m y rule: generate_samples.raw_induct [rotated 1, consumes 1])
  case (1 gen cfg bn n rng m y)
  show ?case
  proof (cases "int (length m) < n")
    case False
    with "1.hyps" "1.prems" show ?thesis by auto
  next
    case lt: True
    show ?thesis
    proof (cases "bytes_hex (stake bn rng) \<in> set (map fst m)")
      case True
      with lt "1.hyps"
      have "gen cfg bn n (sdrop bn rng) m = Some y" by (simp add: random_hex_eq)
      from "1.IH" [OF this "1.prems"] show ?thesis .
    next
      case False
      show ?thesis
      proof (cases "hex_to_program (bytes_hex (stake bn rng)) (program_length cfg) (ascii_range cfg)
            (ascii_min cfg)")
        case (Inl e)
        with False lt "1.hyps" show ?thesis by (auto simp: random_hex_eq)
      next
        case (Inr p)
        with False lt "1.hyps"
        have g: "gen cfg bn n (sdrop bn rng) (m @ [(bytes_hex (stake bn rng), p)]) = Some y"
          by (simp add: random_hex_eq)
        have d: "distinct (map fst (m @ [(bytes_hex (stake bn rng), p)]))"
          using "1.prems"(1) False by simp
        have l: "int (length (m @ [(bytes_hex (stake bn rng), p)])) \<le> max 0 n"
          using lt by simp
        from "1.IH" [OF g d l] show ?thesis .
      qed
    qed
  qed
qed

section \<open>The accepted set\<close>

lemma collect_step:
  "foldl (\<lambda>out (hx, result). if success result then out(hx \<mapsto> result) else out) acc results h = Some res
   \<longleftrightarrow> (if h \<in> fst ` set results then (h, res) \<in> set results \<and> success res
        else acc h = Some res)"
  if "distinct (map fst results)" "\<forall>x \<in> set results. \<not> success (snd x) \<longrightarrow> acc (fst x) = None"
  using that
proof (induction results arbitrary: acc)
  case Nil
  show ?case by simp
next
  case (Cons x xs)
  obtain k v where x: "x = (k, v)" by (cases x)
  let ?acc = "if success v then acc(k \<mapsto> v) else acc"
  have d: "distinct (map fst xs)" and k: "k \<notin> fst ` set xs" using Cons.prems(1) x by auto
  have inv: "\<forall>y \<in> set xs. \<not> success (snd y) \<longrightarrow> ?acc (fst y) = None"
    using Cons.prems(2) k by (auto simp: rev_image_eqI)
  have nk: "acc k = None" if "\<not> success v" using Cons.prems(2) x that by simp
  from Cons.IH [OF d inv] have
    "foldl (\<lambda>out (hx, result). if success result then out(hx \<mapsto> result) else out) ?acc xs h = Some res
     \<longleftrightarrow> (if h \<in> fst ` set xs then (h, res) \<in> set xs \<and> success res else ?acc h = Some res)" .
  then show ?case using x k nk by (auto simp: rev_image_eqI)
qed

text \<open>
  Claim C6. For every list of (identifier, result) pairs with distinct identifiers that the
  batch produces, the returned mapping holds exactly the pairs whose result is a success:
  an identifier maps to a result iff that pair was produced and the result satisfies
  success. So every accepted identifier keeps its own result and no identifier with a
  failed result appears.
\<close>

theorem accepted_set:
  "(distinct (map fst results) \<longrightarrow>
      (collect_successful results hx = Some result
         \<longleftrightarrow> (hx, result) \<in> set results \<and> success result))
   \<and> (distinct (map fst hex_program_map) \<longrightarrow>
      (run_batch runner_run hex_program_map hx = Some result
         \<longleftrightarrow> (\<exists>program. (hx, program) \<in> set hex_program_map \<and> runner_run program = result)
              \<and> success result))"
proof -
  have c: "collect_successful rs hx = Some result \<longleftrightarrow> (hx, result) \<in> set rs \<and> success result"
    if d: "distinct (map fst rs)" for rs
  proof -
    have "collect_successful rs hx = Some result
          \<longleftrightarrow> (if hx \<in> fst ` set rs then (hx, result) \<in> set rs \<and> success result
               else Map.empty hx = Some result)"
      unfolding collect_successful_def by (rule collect_step [OF d]) simp
    also have "\<dots> \<longleftrightarrow> (hx, result) \<in> set rs \<and> success result"
      by (auto simp: rev_image_eqI)
    finally show ?thesis .
  qed
  let ?rs = "map (\<lambda>(h, p). worker runner_run h p) hex_program_map"
  have k: "map fst ?rs = map fst hex_program_map"
    by (simp add: worker_def case_prod_beta comp_def)
  have s: "(hx, result) \<in> set ?rs
           \<longleftrightarrow> (\<exists>program. (hx, program) \<in> set hex_program_map \<and> runner_run program = result)"
    by (auto simp: worker_def)
  have "run_batch runner_run hex_program_map hx = Some result
         \<longleftrightarrow> (\<exists>program. (hx, program) \<in> set hex_program_map \<and> runner_run program = result)
              \<and> success result"
    if "distinct (map fst hex_program_map)"
    using c [of ?rs] that unfolding run_batch_def k s by simp
  with c [of results] show ?thesis by blast
qed

theorem accepted_set_witness:
  "distinct (map fst [(''00'', \<lparr>returncode = 0, stdout = [], stderr = []\<rparr>),
                      (''01'', \<lparr>returncode = 1, stdout = [], stderr = []\<rparr>),
                      (''02'', \<lparr>returncode = 124, stdout = [], stderr = []\<rparr>)])
   \<and> collect_successful [(''00'', \<lparr>returncode = 0, stdout = [], stderr = []\<rparr>),
                      (''01'', \<lparr>returncode = 1, stdout = [], stderr = []\<rparr>),
                      (''02'', \<lparr>returncode = 124, stdout = [], stderr = []\<rparr>)] ''02''
       = Some \<lparr>returncode = 124, stdout = [], stderr = []\<rparr>
   \<and> collect_successful [(''00'', \<lparr>returncode = 0, stdout = [], stderr = []\<rparr>),
                      (''01'', \<lparr>returncode = 1, stdout = [], stderr = []\<rparr>),
                      (''02'', \<lparr>returncode = 124, stdout = [], stderr = []\<rparr>)] ''01''
       \<noteq> Some \<lparr>returncode = 1, stdout = [], stderr = []\<rparr>"
proof -
  let ?rs = "[(''00'', \<lparr>returncode = 0, stdout = [], stderr = []\<rparr>),
              (''01'', \<lparr>returncode = 1, stdout = [], stderr = []\<rparr>),
              (''02'', \<lparr>returncode = 124, stdout = [], stderr = []\<rparr>)]"
  have d: "distinct (map fst ?rs)" by simp
  have s: "success \<lparr>returncode = 124, stdout = [], stderr = []\<rparr>"
    "\<not> success \<lparr>returncode = 1, stdout = [], stderr = []\<rparr>"
    by (simp_all add: success_def ok_def timed_out_def)
  show ?thesis
    using d s accepted_set [of ?rs "''02''" "\<lparr>returncode = 124, stdout = [], stderr = []\<rparr>"]
      accepted_set [of ?rs "''01''" "\<lparr>returncode = 1, stdout = [], stderr = []\<rparr>"]
    by simp
qed

section \<open>Sampling beyond the size of the space\<close>

text \<open>
  Claim C5, as amended. The sample-generation phase makes no check of the requested count
  against the size of the space and raises no error for it. With at least one byte per draw
  and an alphabet of character codes, the loop never raises; when it returns, it returns
  exactly the requested number of distinct identifiers (none for a negative count); and when
  the requested count exceeds \<open>256 ^ bytes_needed\<close>, the number of strings \<^verbatim>\<open>random_hex\<close>
  can return, it never returns, whatever the random source.
\<close>

theorem generation_unchecked:
  "1 \<le> bn \<and> 1 \<le> ascii_range cfg \<and> 0 \<le> ascii_min cfg \<and> ascii_max cfg \<le> 0x10FFFF \<longrightarrow>
     (\<forall>e. generate_samples cfg bn n rng [] \<noteq> Some (Inl e))
     \<and> (\<forall>m rng'. generate_samples cfg bn n rng [] = Some (Inr (m, rng')) \<longrightarrow>
           int (length m) = max 0 n \<and> distinct (map fst m))
     \<and> (256 ^ bn < n \<longrightarrow> generate_samples cfg bn n rng [] = None)"
proof (intro impI conjI allI)
  fix e
  assume a: "1 \<le> bn \<and> 1 \<le> ascii_range cfg \<and> 0 \<le> ascii_min cfg \<and> ascii_max cfg \<le> 0x10FFFF"
  show "generate_samples cfg bn n rng [] \<noteq> Some (Inl e)"
  proof
    assume "generate_samples cfg bn n rng [] = Some (Inl e)"
    from generate_samples_no_error [OF this] a show False by simp
  qed
next
  fix m rng'
  assume "generate_samples cfg bn n rng [] = Some (Inr (m, rng'))"
  from generate_samples_returned [OF this]
  show "int (length m) = max 0 n" "distinct (map fst m)" by simp_all
next
  assume a: "1 \<le> bn \<and> 1 \<le> ascii_range cfg \<and> 0 \<le> ascii_min cfg \<and> ascii_max cfg \<le> 0x10FFFF"
    and n: "256 ^ bn < n"
  show "generate_samples cfg bn n rng [] = None"
  proof (cases "generate_samples cfg bn n rng []")
    case None
    then show ?thesis .
  next
    case (Some y)
    have k: "drawn_keys bn []" by (simp add: drawn_keys_def)
    from generate_samples_exhausted [OF Some k n] obtain e where "y = Inl e" by blast
    moreover from generate_samples_no_error [OF Some] a obtain res where "y = Inr res" by auto
    ultimately show ?thesis by simp
  qed
qed

theorem generation_unchecked_witness:
  "(1::nat) \<le> 1 \<and> 1 \<le> ascii_range \<lparr>line_length = 1, total_lines = 1, ascii_min = 48, ascii_max = 49\<rparr>
   \<and> 0 \<le> ascii_min \<lparr>line_length = 1, total_lines = 1, ascii_min = 48, ascii_max = 49\<rparr>
   \<and> ascii_max \<lparr>line_length = 1, total_lines = 1, ascii_min = 48, ascii_max = 49\<rparr> \<le> 0x10FFFF
   \<and> (256::int) ^ 1 < 257
   \<and> generate_samples \<lparr>line_length = 1, total_lines = 1, ascii_min = 48, ascii_max = 49\<rparr> 1 257
        (sconst 0x00) [] = None"
proof -
  have a: "(1::nat) \<le> 1 \<and> 1 \<le> ascii_range \<lparr>line_length = 1, total_lines = 1, ascii_min = 48, ascii_max = 49\<rparr>
   \<and> 0 \<le> ascii_min \<lparr>line_length = 1, total_lines = 1, ascii_min = 48, ascii_max = 49\<rparr>
   \<and> ascii_max \<lparr>line_length = 1, total_lines = 1, ascii_min = 48, ascii_max = 49\<rparr> \<le> 0x10FFFF
   \<and> (256::int) ^ 1 < 257"
    by (simp add: ascii_range_def)
  show ?thesis
    using a generation_unchecked [of 1 "\<lparr>line_length = 1, total_lines = 1, ascii_min = 48, ascii_max = 49\<rparr>"
        257 "sconst 0x00"]
    by simp
qed

theorem generation_unchecked_counterexample:
  "ascii_range \<lparr>line_length = 1, total_lines = 1, ascii_min = 48, ascii_max = 49\<rparr>
     ^ nat (program_length \<lparr>line_length = 1, total_lines = 1, ascii_min = 48, ascii_max = 49\<rparr>) < 3
   \<and> generate_samples \<lparr>line_length = 1, total_lines = 1, ascii_min = 48, ascii_max = 49\<rparr> 1 3
        (0x00 ## 0x01 ## 0x02 ## sconst 0x00) []
      = Some (Inr ([(''00'', [48]), (''01'', [49]), (''02'', [48])], sconst 0x00))"
  by (simp add: generate_samples.simps random_hex_def rng_bytes_def bytes_hex_def hex_digit_def
      hex_to_program_def int16_def split_sign_def strip_prefix16_def isspace_def digit_value_def
      chr_py_def program_length_def ascii_range_def)

end
